theory Spec2Isabelle
  imports Main "HOL-Library.Sublist"
begin

section \<open>Strings of the host language\<close>

text \<open>
  A JavaScript string is a sequence of UTF-16 code units; a code unit is modelled as a
  natural number. \<open>js\<close> turns an ASCII literal into such a sequence.
\<close>

type_synonym jsstring = "nat list"

definition js :: "string \<Rightarrow> jsstring" where
  "js s = map of_char s"

definition upperAscii :: "nat \<Rightarrow> nat" where
  "upperAscii c = (if 97 \<le> c \<and> c \<le> 122 then c - 32 else c)"

text \<open>
  \<open>String.prototype.toUpperCase\<close> maps every code point to its Unicode upper-case
  mapping, independently of its neighbours. On ASCII that mapping is \<open>upperAscii\<close>.
  The mapping of the other code points is a table of the runtime, not of this program: it
  is the parameter \<open>U\<close>, which receives a maximal run of non-ASCII code units (so a
  surrogate pair is never cut) and returns its upper-cased form.
\<close>

function toUpperCase :: "(jsstring \<Rightarrow> jsstring) \<Rightarrow> jsstring \<Rightarrow> jsstring" where
  "toUpperCase U [] = []"
| "toUpperCase U (c # cs) =
     (if c < 128 then upperAscii c # toUpperCase U cs
      else U (c # takeWhile (\<lambda>d. 128 \<le> d) cs) @ toUpperCase U (dropWhile (\<lambda>d. 128 \<le> d) cs))"
  by pat_completeness auto
termination
  by (relation "measure (\<lambda>(U, s). length s)")
     (auto simp: less_Suc_eq_le length_dropWhile_le)

text \<open>
  A stand-in for the runtime's table in closed examples: it leaves non-ASCII runs as they
  are. The examples below use ASCII text only, where the table is never consulted.
\<close>

definition keepNonAscii :: "jsstring \<Rightarrow> jsstring" where
  "keepNonAscii r = r"

text \<open>White space and line terminators, as \<open>String.prototype.trim\<close> strips them.\<close>

definition isLineTerminator :: "nat \<Rightarrow> bool" where
  "isLineTerminator c = (c = 10 \<or> c = 13 \<or> c = 8232 \<or> c = 8233)"

definition isWhiteSpace :: "nat \<Rightarrow> bool" where
  "isWhiteSpace c =
     (c = 9 \<or> c = 11 \<or> c = 12 \<or> c = 32 \<or> c = 160 \<or> c = 5760 \<or> (8192 \<le> c \<and> c \<le> 8202)
      \<or> c = 8239 \<or> c = 8287 \<or> c = 12288 \<or> c = 65279 \<or> isLineTerminator c)"

definition trim :: "jsstring \<Rightarrow> jsstring" where
  "trim s = rev (dropWhile isWhiteSpace (rev (dropWhile isWhiteSpace s)))"

text \<open>\<open>s.split(sep)\<close> for a separator of one code unit; the result is never empty.\<close>

fun split :: "nat \<Rightarrow> jsstring \<Rightarrow> jsstring list" where
  "split sep [] = [] # []"
| "split sep (c # cs) =
     (if c = sep then [] # split sep cs
      else (c # hd (split sep cs)) # tl (split sep cs))"

text \<open>
  \<open>includes\<close> of an array with an element, and of a string with a needle of one code
  unit.
\<close>

definition includes' :: "'a list \<Rightarrow> 'a \<Rightarrow> bool" where
  "includes' xs x = (x \<in> set xs)"

section \<open>Regular expressions\<close>

text \<open>
  The five patterns of the detector are concatenations of single-character terms
  (a literal, \<open>.\<close>, a class of ranges), greedy \<open>*\<close> and \<open>+\<close> over such a term, and one
  capturing group. \<open>GroupOpen\<close> and \<open>GroupClose\<close> are the parentheses of group 1.
\<close>

datatype atom = Lit nat | Dot | Cls "(nat \<times> nat) list"

datatype item = One atom | Star atom | Plus atom | GroupOpen | GroupClose

record regexp =
  source :: "item list"
  global :: bool
  ignoreCase :: bool
  lastIndex :: nat

text \<open>
  Canonicalize of the language specification (no \<open>u\<close> flag): with \<open>i\<close>, a code
  unit is compared through its upper-case form when that form is a single code unit, except
  that a non-ASCII unit is never folded onto an ASCII one.
\<close>

definition canonicalize :: "(jsstring \<Rightarrow> jsstring) \<Rightarrow> bool \<Rightarrow> nat \<Rightarrow> nat" where
  "canonicalize U ic ch =
     (if \<not> ic then ch
      else (case toUpperCase U [ch] of
              [cu] \<Rightarrow> if 128 \<le> ch \<and> cu < 128 then ch else cu
            | _ \<Rightarrow> ch))"

text \<open>
  A term matches a code unit when some member of its character set has the same canonical
  form. The set of \<open>.\<close> is every code unit but the four line terminators; no code unit
  has a line terminator as its upper-case form, so \<open>.\<close> is the same with and without
  \<open>i\<close>.
\<close>

fun atom_matches :: "(jsstring \<Rightarrow> jsstring) \<Rightarrow> bool \<Rightarrow> atom \<Rightarrow> nat \<Rightarrow> bool" where
  "atom_matches U ic (Lit a) ch = (canonicalize U ic a = canonicalize U ic ch)"
| "atom_matches U ic Dot ch = (\<not> isLineTerminator ch)"
| "atom_matches U ic (Cls rs) ch =
     list_ex (\<lambda>(lo, hi). list_ex (\<lambda>a. canonicalize U ic a = canonicalize U ic ch) [lo..<Suc hi]) rs"

fun weight :: "item \<Rightarrow> nat" where
  "weight (Plus a) = 3"
| "weight _ = 1"

text \<open>
  The backtracking matcher at one start position. The items still to match play the role
  of the continuation: a greedy \<open>*\<close> first tries one more character followed by
  everything that remains, and gives the character back when that fails. The arguments are
  the input that is left, the input at the opening parenthesis (inside the group) and the
  text captured so far; the result is the input left after the match and the capture.
\<close>

function bt :: "(jsstring \<Rightarrow> jsstring) \<Rightarrow> bool \<Rightarrow> item list \<Rightarrow> jsstring \<Rightarrow> jsstring option
    \<Rightarrow> jsstring option \<Rightarrow> (jsstring \<times> jsstring option) option" where
  "bt U ic [] t g cap = Some (t, cap)"
| "bt U ic (One a # r) [] g cap = None"
| "bt U ic (One a # r) (c # t) g cap =
     (if atom_matches U ic a c then bt U ic r t g cap else None)"
| "bt U ic (Star a # r) [] g cap = bt U ic r [] g cap"
| "bt U ic (Star a # r) (c # t) g cap =
     (if atom_matches U ic a c
      then (case bt U ic (Star a # r) t g cap of
              Some m \<Rightarrow> Some m
            | None \<Rightarrow> bt U ic r (c # t) g cap)
      else bt U ic r (c # t) g cap)"
| "bt U ic (Plus a # r) t g cap = bt U ic (One a # Star a # r) t g cap"
| "bt U ic (GroupOpen # r) t g cap = bt U ic r t (Some t) cap"
| "bt U ic (GroupClose # r) t g cap =
     bt U ic r t None
       (case g of Some t0 \<Rightarrow> Some (take (length t0 - length t) t0) | None \<Rightarrow> cap)"
  by pat_completeness auto
termination
  by (relation "measures [\<lambda>(U, ic, p, t, g, cap). length t,
                          \<lambda>(U, ic, p, t, g, cap). sum_list (map weight p)]")
     auto

text \<open>
  The search of \<open>RegExp.prototype.exec\<close>: try the start positions from \<open>lastIndex\<close>
  on, one code unit at a time, and fail once the position is past the end of the input. A
  match is reported as its start index, its end index and group 1.
\<close>

function search :: "(jsstring \<Rightarrow> jsstring) \<Rightarrow> bool \<Rightarrow> item list \<Rightarrow> jsstring \<Rightarrow> nat
    \<Rightarrow> (nat \<times> nat \<times> jsstring option) option" where
  "search U ic p s i =
     (if length s < i then None
      else (case bt U ic p (drop i s) None None of
              Some (rest, cap) \<Rightarrow> Some (i, length s - length rest, cap)
            | None \<Rightarrow> search U ic p s (Suc i)))"
  by pat_completeness auto
termination
  by (relation "measure (\<lambda>(U, ic, p, s, i). Suc (length s) - i)") auto

record match =
  index :: nat
  matched :: jsstring
  group1 :: "jsstring option"

definition exec :: "(jsstring \<Rightarrow> jsstring) \<Rightarrow> regexp \<Rightarrow> jsstring \<Rightarrow> match option \<times> regexp" where
  "exec U R s =
     (case search U (ignoreCase R) (source R) s (if global R then lastIndex R else 0) of
        None \<Rightarrow> (None, if global R then R\<lparr>lastIndex := 0\<rparr> else R)
      | Some (i, e, cap) \<Rightarrow>
          (Some \<lparr>index = i, matched = take (e - i) (drop i s), group1 = cap\<rparr>,
           if global R then R\<lparr>lastIndex := e\<rparr> else R))"

section \<open>The detector\<close>

definition lits :: "string \<Rightarrow> item list" where
  "lits w = map (\<lambda>c. One (Lit (of_char c))) w"

definition group :: "item list \<Rightarrow> item list" where
  "group p = GroupOpen # p @ [GroupClose]"

definition upper_us :: atom where
  "upper_us = Cls [(65, 90), (95, 95)]"

definition regex :: "item list \<Rightarrow> bool \<Rightarrow> bool \<Rightarrow> regexp" where
  "regex p g i = \<lparr>source = p, global = g, ignoreCase = i, lastIndex = 0\<rparr>"

definition pattern1 :: regexp where
  "pattern1 = regex (lits ''process.env.'' @ group [Plus upper_us]) True False"

definition pattern2 :: regexp where
  "pattern2 = regex (lits ''env.'' @ group [Plus upper_us]) True False"

definition pattern3 :: regexp where
  "pattern3 = regex (lits ''Cannot read propert'' @ [Plus Dot] @ lits ''of undefined''
                     @ [Star Dot] @ lits ''env.'' @ group [Plus upper_us]) True True"

definition pattern4 :: regexp where
  "pattern4 = regex (group [Plus upper_us] @ lits '' is not defined'') True False"

definition pattern5 :: regexp where
  "pattern5 = regex (lits ''Missing '' @ group [Plus upper_us]) True False"

record detector =
  envPatterns :: "regexp list"

definition EnvScreamDetector :: detector where
  "EnvScreamDetector = \<lparr>envPatterns = [pattern1, pattern2, pattern3, pattern4, pattern5]\<rparr>"

text \<open>\<open>Set.prototype.add\<close> on a set kept in insertion order.\<close>

definition add :: "'a \<Rightarrow> 'a list \<Rightarrow> 'a list" where
  "add x xs = (if x \<in> set xs then xs else xs @ [x])"

text \<open>
  The body of the loop: \<open>match[1]\<close> is truthy when the group took part in the match and
  is not the empty string.
\<close>

definition note_group :: "(jsstring \<Rightarrow> jsstring) \<Rightarrow> jsstring option \<Rightarrow> jsstring list \<Rightarrow> jsstring list" where
  "note_group U g1 suspects =
     (case g1 of
        Some c \<Rightarrow> if c \<noteq> [] then add (toUpperCase U c) suspects else suspects
      | None \<Rightarrow> suspects)"

text \<open>
  The \<open>while\<close> loop of \<open>detectScreams\<close> for one pattern. It ends when \<open>exec\<close> returns
  null; \<open>None\<close> stands for a loop that never ends.
\<close>

partial_function (option) scream_loop ::
  "(jsstring \<Rightarrow> jsstring) \<Rightarrow> regexp \<Rightarrow> jsstring \<Rightarrow> jsstring list \<Rightarrow> (jsstring list \<times> regexp) option" where
  "scream_loop U R s suspects =
     (case exec U R s of
        (None, R') \<Rightarrow> Some (suspects, R')
      | (Some m, R') \<Rightarrow> scream_loop U R' s (note_group U (group1 m) suspects))"

declare scream_loop.simps [code]

fun forEach :: "(jsstring \<Rightarrow> jsstring) \<Rightarrow> regexp list \<Rightarrow> jsstring \<Rightarrow> jsstring list
    \<Rightarrow> (jsstring list \<times> regexp list) option" where
  "forEach U [] s suspects = Some (suspects, [])"
| "forEach U (R # Rs) s suspects =
     (case scream_loop U R s suspects of
        None \<Rightarrow> None
      | Some (suspects', R') \<Rightarrow>
          (case forEach U Rs s suspects' of
             None \<Rightarrow> None
           | Some (suspects'', Rs') \<Rightarrow> Some (suspects'', R' # Rs')))"

definition detectScreams :: "(jsstring \<Rightarrow> jsstring) \<Rightarrow> detector \<Rightarrow> jsstring
    \<Rightarrow> (jsstring list \<times> detector) option" where
  "detectScreams U d logContent =
     (case forEach U (envPatterns d) logContent [] of
        None \<Rightarrow> None
      | Some (suspects, Rs) \<Rightarrow> Some (suspects, d\<lparr>envPatterns := Rs\<rparr>))"

section \<open>The autopsy\<close>

text \<open>
  What the program can see of a file: it does not exist, it exists and is read as a
  string, or it exists and reading it throws (a directory, no permission).
\<close>

datatype fsfile = Absent | Content jsstring | Unreadable

datatype failure = Uncaught | Nontermination

record verdict =
  missing :: "jsstring list"
  misconfigured :: "jsstring list"

text \<open>Lines 44 to 52 of the source: the keys declared in \<open>.env\<close>.\<close>

definition existingVars :: "(jsstring \<Rightarrow> jsstring) \<Rightarrow> fsfile \<Rightarrow> failure + jsstring list" where
  "existingVars U f =
     (case f of
        Absent \<Rightarrow> Inr []
      | Unreadable \<Rightarrow> Inl Uncaught
      | Content envContent \<Rightarrow>
          Inr (map (\<lambda>line. toUpperCase U (trim (hd (split 61 line))))
                 (filter (\<lambda>line. includes' line 61) (split 10 envContent))))"

text \<open>Lines 54 to 64 of the source: the two filters over the suspects.\<close>

definition classify :: "jsstring list \<Rightarrow> jsstring list \<Rightarrow> verdict" where
  "classify vars suspects =
     \<lparr>missing = filter (\<lambda>suspect. \<not> includes' vars suspect) suspects,
      misconfigured = filter (\<lambda>suspect. includes' vars suspect) suspects\<rparr>"

definition autopsy :: "(jsstring \<Rightarrow> jsstring) \<Rightarrow> fsfile \<Rightarrow> jsstring list \<Rightarrow> failure + verdict" where
  "autopsy U envFile suspects =
     (case existingVars U envFile of
        Inl e \<Rightarrow> Inl e
      | Inr vars \<Rightarrow> Inr (classify vars suspects))"

section \<open>The report and the command line\<close>

text \<open>
  The file system as the program reads it: the file named by the argument, and the file
  \<open>.env\<close> of the working directory. The output is the list of the lines given to
  \<open>console.log\<close>.
\<close>

record world =
  logs :: "jsstring \<Rightarrow> fsfile"
  dotenv :: fsfile

definition analyze :: "(jsstring \<Rightarrow> jsstring) \<Rightarrow> detector \<Rightarrow> world \<Rightarrow> jsstring
    \<Rightarrow> failure + (jsstring list \<times> detector)" where
  "analyze U d w logFile =
     (case logs w logFile of
        Absent \<Rightarrow>
          Inr ([10060 # js '' Log file not found: '' @ logFile,
                js ''Tip: Try screaming louder next time.''], d)
      | Unreadable \<Rightarrow> Inl Uncaught
      | Content logContent \<Rightarrow>
          (case detectScreams U d logContent of
             None \<Rightarrow> Inl Nontermination
           | Some (suspects, d') \<Rightarrow>
               if length suspects = 0
               then Inr ([9989 # js '' No screams detected. Either perfect code or silent suffering.''], d')
               else (case autopsy U (dotenv w) suspects of
                       Inl e \<Rightarrow> Inl e
                     | Inr v \<Rightarrow>
                         Inr ((55357 # 56589 # js '' ENV SCREAM ANALYSIS REPORT'')
                              # replicate 40 61
                              # ((if 0 < length (missing v)
                                  then (10 # 55357 # 57000 # js '' MISSING VARIABLES (add to .env):'')
                                       # map (\<lambda>varName. js ''  - '' @ varName @ js ''=your_value_here'')
                                           (missing v)
                                  else [])
                                 @ (if 0 < length (misconfigured v)
                                    then (10 # 9888 # 65039 # js ''  MISCONFIGURED (check values in .env):'')
                                         # map (\<lambda>varName. js ''  - '' @ varName) (misconfigured v)
                                    else [])
                                 @ [10 # 55357 # 56481
                                    # js '' Remember: Environment variables should whisper, not scream.'']),
                              d'))))"

record run =
  stdout :: "jsstring list"
  status :: nat

definition usage :: "jsstring list" where
  "usage = [js ''Usage: node env-scream-detector.js <logfile>'',
            js ''Example: node env-scream-detector.js error.log'',
            10 # js ''Pro tip: Your logs are probably screaming right now.'']"

text \<open>
  The entry point, with the argument vector of the process (the interpreter, the
  script, then the arguments). \<open>process.exit(1)\<close> ends the run at once.
\<close>

definition cli :: "(jsstring \<Rightarrow> jsstring) \<Rightarrow> world \<Rightarrow> jsstring list \<Rightarrow> failure + run" where
  "cli U w argv =
     (if length argv < 3 then Inr \<lparr>stdout = usage, status = 1\<rparr>
      else (case analyze U EnvScreamDetector w (argv ! 2) of
              Inl e \<Rightarrow> Inl e
            | Inr (out, d) \<Rightarrow> Inr \<lparr>stdout = out, status = 0\<rparr>))"

section \<open>The reference loader as the specification words it\<close>

text \<open>
  Split the content on newline, keep the lines that contain \<open>=\<close>, and of each take the
  text before the first \<open>=\<close>, trimmed and upper-cased.
\<close>

function spec_lines :: "jsstring \<Rightarrow> jsstring list" where
  "spec_lines s =
     (case dropWhile (\<lambda>c. c \<noteq> 10) s of
        [] \<Rightarrow> [s]
      | nl # r \<Rightarrow> takeWhile (\<lambda>c. c \<noteq> 10) s # spec_lines r)"
  by pat_completeness auto
termination
proof (relation "measure length")
  fix s :: jsstring and nl r
  assume "dropWhile (\<lambda>c. c \<noteq> 10) s = nl # r"
  moreover have "length (dropWhile (\<lambda>c. c \<noteq> 10) s) \<le> length s"
    by (rule length_dropWhile_le)
  ultimately show "(r, s) \<in> measure length" by simp
qed simp

definition spec_declared_keys :: "(jsstring \<Rightarrow> jsstring) \<Rightarrow> jsstring \<Rightarrow> jsstring list" where
  "spec_declared_keys U content =
     map (\<lambda>l. toUpperCase U (trim (takeWhile (\<lambda>c. c \<noteq> 61) l)))
       (filter (\<lambda>l. 61 \<in> set l) (spec_lines content))"

section \<open>Notions used in the proofs\<close>

text \<open>An item that cannot match without taking a character.\<close>

fun consuming :: "item \<Rightarrow> bool" where
  "consuming (One a) = True"
| "consuming (Plus a) = True"
| "consuming _ = False"

text \<open>
  The groups captured by the successive matches of one pattern, from a start position
  on. The list ends at a match that does not move forward; no pattern with a consuming
  item has such a match.
\<close>

function captures_from :: "(jsstring \<Rightarrow> jsstring) \<Rightarrow> bool \<Rightarrow> item list \<Rightarrow> jsstring \<Rightarrow> nat
    \<Rightarrow> jsstring option list" where
  "captures_from U ic p s i =
     (case search U ic p s i of
        None \<Rightarrow> []
      | Some (j, e, cap) \<Rightarrow>
          if e \<le> i \<or> length s < e then [] else cap # captures_from U ic p s e)"
  by pat_completeness auto
termination
  by (relation "measure (\<lambda>(U, ic, p, s, i). Suc (length s) - i)") auto

definition captures :: "(jsstring \<Rightarrow> jsstring) \<Rightarrow> regexp \<Rightarrow> jsstring \<Rightarrow> jsstring option list" where
  "captures U R s = captures_from U (ignoreCase R) (source R) s (lastIndex R)"

definition note_all :: "(jsstring \<Rightarrow> jsstring) \<Rightarrow> jsstring option list \<Rightarrow> jsstring list \<Rightarrow> jsstring list" where
  "note_all U caps suspects = foldl (\<lambda>acc g1. note_group U g1 acc) suspects caps"

text \<open>The names collected by a list of patterns, each from its own \<open>lastIndex\<close>.\<close>

definition candidates :: "(jsstring \<Rightarrow> jsstring) \<Rightarrow> regexp list \<Rightarrow> jsstring \<Rightarrow> jsstring list" where
  "candidates U Rs s = foldl (\<lambda>a R. note_all U (captures U R s) a) [] Rs"

text \<open>
  Inside the group (\<open>True\<close>) every item is over the class \<open>[A-Z_]\<close>; outside it any
  item may stand.
\<close>

fun class_group :: "bool \<Rightarrow> item list \<Rightarrow> bool" where
  "class_group b [] = True"
| "class_group b (GroupOpen # r) = class_group True r"
| "class_group b (GroupClose # r) = class_group False r"
| "class_group b (One a # r) = ((b \<longrightarrow> a = upper_us) \<and> class_group b r)"
| "class_group b (Star a # r) = ((b \<longrightarrow> a = upper_us) \<and> class_group b r)"
| "class_group b (Plus a # r) = ((b \<longrightarrow> a = upper_us) \<and> class_group b r)"

text \<open>The code units of an upper-case name: \<open>A\<close> to \<open>Z\<close> and \<open>_\<close>.\<close>

definition name_char :: "nat \<Rightarrow> bool" where
  "name_char c = (65 \<le> c \<and> c \<le> 90 \<or> c = 95)"

text \<open>
  Two texts that differ at most in the case of ASCII letters, and two results of the
  matcher that do.
\<close>

definition same_but_case :: "jsstring \<Rightarrow> jsstring \<Rightarrow> bool" where
  "same_but_case s t = (map upperAscii s = map upperAscii t)"

definition same_result :: "(jsstring \<times> jsstring option) option \<Rightarrow> (jsstring \<times> jsstring option) option \<Rightarrow> bool" where
  "same_result = rel_option (\<lambda>(r, c) (r', c'). same_but_case r r' \<and> rel_option same_but_case c c')"

declare spec_lines.simps [simp del]
declare search.simps [simp del]
declare captures_from.simps [simp del]

section \<open>The matcher, the search and the loop\<close>

lemma bt_length:
  "bt U ic p t g cap = Some (rest, c) \<Longrightarrow>
   length rest \<le> length t \<and> (list_ex consuming p \<longrightarrow> length rest < length t)"
proof (induction U ic p t g cap arbitrary: rest c rule: bt.induct)
  case (5 U ic a r ch t g cap)
  then show ?case by (fastforce split: if_splits option.splits)
next
  case (3 U ic a r ch t g cap)
  then show ?case by (fastforce split: if_splits)
qed (fastforce split: if_splits option.splits)+

lemma search_Some:
  "search U ic p s i = Some (j, e, cap) \<Longrightarrow>
   i \<le> j \<and> j \<le> length s \<and>
   (\<exists>rest. bt U ic p (drop j s) None None = Some (rest, cap) \<and> e = length s - length rest)"
proof (induction U ic p s i rule: search.induct)
  case (1 U ic p s i)
  show ?case
  proof (cases "bt U ic p (drop i s) None None")
    case None
    then show ?thesis using 1 by (subst (asm) (2) search.simps) (auto split: if_splits)
  next
    case (Some a)
    then show ?thesis using 1(2)
      by (subst (asm) search.simps) (auto split: if_splits prod.splits)
  qed
qed

lemma search_bounds:
  assumes "search U ic p s i = Some (j, e, cap)"
  shows "j \<le> e" "e \<le> length s" "list_ex consuming p \<Longrightarrow> j < e" "i \<le> j"
proof -
  from search_Some[OF assms] obtain rest where
    j: "i \<le> j" "j \<le> length s" and b: "bt U ic p (drop j s) None None = Some (rest, cap)"
    and e: "e = length s - length rest" by blast
  from bt_length[OF b] have l: "length rest \<le> length s - j"
    and l': "list_ex consuming p \<longrightarrow> length rest < length s - j" by simp_all
  show "j \<le> e" using l e j by arith
  show "e \<le> length s" using e by simp
  show "list_ex consuming p \<Longrightarrow> j < e" using l' e j by arith
  show "i \<le> j" by fact
qed

lemma search_skipped:
  "search U ic p s i = r \<Longrightarrow> i \<le> k \<Longrightarrow> k \<le> length s \<Longrightarrow>
   (case r of None \<Rightarrow> True | Some (j, e, cap) \<Rightarrow> k < j) \<Longrightarrow>
   bt U ic p (drop k s) None None = None"
proof (induction U ic p s i rule: search.induct)
  case (1 U ic p s i)
  show ?case
  proof (cases "bt U ic p (drop i s) None None")
    case None
    show ?thesis
    proof (cases "k = i")
      case True then show ?thesis using None by simp
    next
      case False
      have "search U ic p s (Suc i) = r"
        using 1(2,3,4) None by (subst (asm) search.simps) (auto split: if_splits)
      then show ?thesis using 1(1)[OF _ None] 1(3,4,5) False by auto
    qed
  next
    case (Some a)
    then show ?thesis using 1(2,3,4,5)
      by (subst (asm) search.simps) (auto split: if_splits prod.splits)
  qed
qed

lemma scream_loop_captures:
  assumes "global R" "list_ex consuming (source R)"
  shows "scream_loop U R s acc = Some (note_all U (captures U R s) acc, R\<lparr>lastIndex := 0\<rparr>)"
proof -
  have "\<And>R acc. global R \<Longrightarrow> ignoreCase R = ic \<Longrightarrow> source R = p \<Longrightarrow> lastIndex R = i \<Longrightarrow>
      list_ex consuming p \<Longrightarrow>
      scream_loop U R s acc
        = Some (note_all U (captures_from U ic p s i) acc, R\<lparr>lastIndex := 0\<rparr>)" for ic p i
  proof (induction U ic p s i rule: captures_from.induct)
    case (1 U ic p s i)
    show ?case
    proof (cases "search U ic p s i")
      case None
      then show ?thesis using 1(2-5)
        by (subst scream_loop.simps, subst captures_from.simps)
           (simp add: exec_def note_all_def)
    next
      case (Some m)
      obtain j e cap where m: "m = (j, e, cap)" by (cases m)
      note S = Some[unfolded m]
      note sb = search_bounds[OF S]
      have e: "\<not> (e \<le> i \<or> length s < e)" using sb(2,4) sb(3)[OF 1(6)] by arith
      have "scream_loop U R s acc = scream_loop U (R\<lparr>lastIndex := e\<rparr>) s (note_group U cap acc)"
        using Some m 1(2-5) by (subst scream_loop.simps) (simp add: exec_def)
      also have "\<dots> = Some (note_all U (captures_from U ic p s e) (note_group U cap acc),
                     R\<lparr>lastIndex := e, lastIndex := 0\<rparr>)"
        using 1(1)[OF Some[unfolded m] refl refl e, of "R\<lparr>lastIndex := e\<rparr>"] 1(2-6) by simp
      also have "captures_from U ic p s i = cap # captures_from U ic p s e"
        using Some m e by (subst captures_from.simps) simp
      then have "note_all U (captures_from U ic p s e) (note_group U cap acc)
                 = note_all U (captures_from U ic p s i) acc"
        by (simp add: note_all_def)
      finally show ?thesis by simp
    qed
  qed
  then show ?thesis using assms by (simp add: captures_def)
qed

lemma forEach_captures:
  "\<forall>R\<in>set Rs. global R \<and> list_ex consuming (source R) \<Longrightarrow>
   forEach U Rs s acc
     = Some (foldl (\<lambda>a R. note_all U (captures U R s) a) acc Rs,
             map (\<lambda>R. R\<lparr>lastIndex := 0\<rparr>) Rs)"
  by (induction Rs arbitrary: acc) (simp_all add: scream_loop_captures)

lemma patterns_consuming:
  "list_ex consuming (source pattern1)" "list_ex consuming (source pattern2)"
  "list_ex consuming (source pattern3)" "list_ex consuming (source pattern4)"
  "list_ex consuming (source pattern5)"
  by (simp_all add: pattern1_def pattern2_def pattern3_def pattern4_def pattern5_def
      regex_def lits_def group_def)

lemma patterns_global:
  "global pattern1" "global pattern2" "global pattern3" "global pattern4" "global pattern5"
  by (simp_all add: pattern1_def pattern2_def pattern3_def pattern4_def pattern5_def regex_def)

lemma patterns_rewound:
  "pattern1\<lparr>lastIndex := 0\<rparr> = pattern1" "pattern2\<lparr>lastIndex := 0\<rparr> = pattern2"
  "pattern3\<lparr>lastIndex := 0\<rparr> = pattern3" "pattern4\<lparr>lastIndex := 0\<rparr> = pattern4"
  "pattern5\<lparr>lastIndex := 0\<rparr> = pattern5"
  by (simp_all add: pattern1_def pattern2_def pattern3_def pattern4_def pattern5_def regex_def)

lemma detectScreams_candidates:
  "detectScreams U EnvScreamDetector s
     = Some (candidates U [pattern1, pattern2, pattern3, pattern4, pattern5] s, EnvScreamDetector)"
proof -
  have "forEach U [pattern1, pattern2, pattern3, pattern4, pattern5] s []
      = Some (candidates U [pattern1, pattern2, pattern3, pattern4, pattern5] s,
              map (\<lambda>R. R\<lparr>lastIndex := 0\<rparr>) [pattern1, pattern2, pattern3, pattern4, pattern5])"
    unfolding candidates_def
    by (rule forEach_captures) (simp add: patterns_consuming patterns_global)
  then show ?thesis
    by (simp add: detectScreams_def EnvScreamDetector_def patterns_rewound del: forEach.simps)
qed

section \<open>What the group captures\<close>

lemma toUpperCase_ascii:
  "\<forall>x\<in>set c. x < 128 \<Longrightarrow> toUpperCase U c = map upperAscii c"
  by (induction c) auto

lemma canonicalize_ascii:
  "ch < 128 \<Longrightarrow> canonicalize U True ch = upperAscii ch"
  by (simp add: canonicalize_def upperAscii_def)

lemma canonicalize_non_ascii:
  "128 \<le> ch \<Longrightarrow> 128 \<le> canonicalize U True ch"
  by (auto simp: canonicalize_def split: list.splits)

lemma canonicalize_plain: "canonicalize U False ch = ch"
  by (simp add: canonicalize_def)

lemma upper_us_members:
  "atom_matches U ic upper_us ch \<longleftrightarrow>
     (\<exists>a. name_char a \<and> canonicalize U ic a = canonicalize U ic ch)"
proof -
  have "(65 \<le> a \<and> a < Suc 90 \<or> 95 \<le> a \<and> a < Suc 95) = name_char a" for a :: nat
    by (auto simp: name_char_def)
  then have "(\<exists>a. (65 \<le> a \<and> a < Suc 90 \<or> 95 \<le> a \<and> a < Suc 95) \<and> P a)
      = (\<exists>a. name_char a \<and> P a)" for P
    by simp
  then show ?thesis
    by (simp add: upper_us_def list_ex_iff Bex_def conj_disj_distribR ex_disj_distrib
        del: upt_Suc)
qed

lemma upper_us_matches:
  "atom_matches U ic upper_us ch \<longleftrightarrow>
     (if ic then ch < 128 \<and> name_char (upperAscii ch) else name_char ch)"
proof (cases ic)
  case False
  then show ?thesis
    by (auto simp: upper_us_members canonicalize_plain)
next
  case True
  have up: "canonicalize U True a = a" if "name_char a" for a
    using that by (auto simp: canonicalize_ascii name_char_def upperAscii_def)
  show ?thesis
  proof (cases "ch < 128")
    case True
    then show ?thesis using \<open>ic\<close> up by (auto simp: upper_us_members canonicalize_ascii)
  next
    case False
    then have "128 \<le> canonicalize U True ch" by (simp add: canonicalize_non_ascii)
    moreover have "a < 128" if "name_char a" for a using that by (auto simp: name_char_def)
    ultimately show ?thesis using \<open>ic\<close> False up by (fastforce simp: upper_us_members)
  qed
qed

lemma upper_us_upper:
  "atom_matches U ic upper_us ch \<Longrightarrow> ch < 128 \<and> name_char (upperAscii ch)"
  by (auto simp: upper_us_matches name_char_def upperAscii_def split: if_splits)

lemma taken_extend:
  "t0 = acc @ ch # t \<Longrightarrow> \<forall>x\<in>set acc. Q x \<Longrightarrow> Q ch \<Longrightarrow>
   \<exists>acc'. t0 = acc' @ t \<and> (\<forall>x\<in>set acc'. Q x)"
  by (rule exI[of _ "acc @ [ch]"]) simp

lemma bt_class_group:
  "bt U ic p t g cap = Some (rest, Some c) \<Longrightarrow>
   (case cap of None \<Rightarrow> True | Some c0 \<Rightarrow> \<forall>x\<in>set c0. atom_matches U ic upper_us x) \<Longrightarrow>
   (case g of
      Some t0 \<Rightarrow> (\<exists>acc. t0 = acc @ t \<and> (\<forall>x\<in>set acc. atom_matches U ic upper_us x))
                 \<and> class_group True p
    | None \<Rightarrow> class_group False p) \<Longrightarrow>
   \<forall>x\<in>set c. atom_matches U ic upper_us x"
proof (induction U ic p t g cap arbitrary: rest c rule: bt.induct)
  case (1 U ic t g cap)
  then show ?case by simp
next
  case (2 U ic a r g cap)
  then show ?case by simp
next
  case (3 U ic a r ch t g cap)
  from 3(2) have m: "atom_matches U ic a ch" and b: "bt U ic r t g cap = Some (rest, Some c)"
    by (auto split: if_splits)
  have "case g of
      Some t0 \<Rightarrow> (\<exists>acc. t0 = acc @ t \<and> (\<forall>x\<in>set acc. atom_matches U ic upper_us x))
                 \<and> class_group True r
    | None \<Rightarrow> class_group False r"
  proof (cases g)
    case None then show ?thesis using 3(4) by simp
  next
    case (Some t0)
    then obtain acc where acc: "t0 = acc @ ch # t" "\<forall>x\<in>set acc. atom_matches U ic upper_us x"
      and a: "a = upper_us" "class_group True r" using 3(4) by auto
    from taken_extend[OF acc] m a(1) Some a(2) show ?thesis by simp
  qed
  then show ?case using 3(1)[OF m b 3(3)] by simp
next
  case (4 U ic a r g cap)
  then show ?case by (cases g) auto
next
  case (5 U ic a r ch t g cap)
  have skip: "case g of
      Some t0 \<Rightarrow> (\<exists>acc. t0 = acc @ ch # t \<and> (\<forall>x\<in>set acc. atom_matches U ic upper_us x))
                 \<and> class_group True r
    | None \<Rightarrow> class_group False r"
    using 5(6) by (cases g) auto
  show ?case
  proof (cases "atom_matches U ic a ch")
    case False
    then have "bt U ic r (ch # t) g cap = Some (rest, Some c)" using 5(4) by simp
    then show ?thesis using 5(3)[OF False _ 5(5) skip] by simp
  next
    case True
    show ?thesis
    proof (cases "bt U ic (Star a # r) t g cap")
      case None
      then have "bt U ic r (ch # t) g cap = Some (rest, Some c)" using 5(4) True by simp
      then show ?thesis using 5(2)[OF True None _ 5(5) skip] by simp
    next
      case (Some m)
      then have b: "bt U ic (Star a # r) t g cap = Some (rest, Some c)" using 5(4) True by simp
      have "case g of
          Some t0 \<Rightarrow> (\<exists>acc. t0 = acc @ t \<and> (\<forall>x\<in>set acc. atom_matches U ic upper_us x))
                     \<and> class_group True (Star a # r)
        | None \<Rightarrow> class_group False (Star a # r)"
      proof (cases g)
        case None then show ?thesis using 5(6) by simp
      next
        case (Some t0)
        then obtain acc where acc: "t0 = acc @ ch # t" "\<forall>x\<in>set acc. atom_matches U ic upper_us x"
          and a: "a = upper_us" "class_group True r" using 5(6) by auto
        from taken_extend[OF acc] True a Some show ?thesis by simp
      qed
      then show ?thesis using 5(1)[OF True b 5(5)] by simp
    qed
  qed
next
  case (6 U ic a r t g cap)
  then show ?case by (cases g) auto
next
  case (7 U ic r t g cap)
  then show ?case by (cases g) auto
next
  case (8 U ic r t g cap)
  show ?case
  proof (cases g)
    case None
    then show ?thesis using 8 by simp
  next
    case (Some t0)
    then obtain acc where acc: "t0 = acc @ t" "\<forall>x\<in>set acc. atom_matches U ic upper_us x"
      and r: "class_group False r" using 8(4) by auto
    have "bt U ic r t None (Some acc) = Some (rest, Some c)" using 8(2) Some acc by simp
    then show ?thesis using 8(1)[of rest c] Some acc r by simp
  qed
qed

lemma set_note_all:
  "set (note_all U caps acc) = set acc \<union> {toUpperCase U c |c. Some c \<in> set caps \<and> c \<noteq> []}"
proof (induction caps arbitrary: acc)
  case Nil
  show ?case by (simp add: note_all_def)
next
  case (Cons g1 caps)
  have "note_all U (g1 # caps) acc = note_all U caps (note_group U g1 acc)"
    by (simp add: note_all_def)
  then show ?case using Cons[of "note_group U g1 acc"]
    by (auto simp: note_group_def add_def split: option.splits if_splits)
qed

lemma set_candidates:
  "set (foldl (\<lambda>a R. note_all U (captures U R s) a) acc Rs)
     = set acc \<union> (\<Union>R\<in>set Rs. {toUpperCase U c |c. Some c \<in> set (captures U R s) \<and> c \<noteq> []})"
  by (induction Rs arbitrary: acc) (auto simp: set_note_all)

lemma captures_from_bt:
  "cap \<in> set (captures_from U ic p s i) \<Longrightarrow>
   \<exists>j rest. i \<le> j \<and> j \<le> length s \<and> bt U ic p (drop j s) None None = Some (rest, cap)"
proof (induction U ic p s i rule: captures_from.induct)
  case (1 U ic p s i)
  show ?case
  proof (cases "search U ic p s i")
    case None
    then show ?thesis using 1(2) by (subst (asm) captures_from.simps) simp
  next
    case (Some m)
    obtain j e c where m: "m = (j, e, c)" by (cases m)
    note S = Some[unfolded m]
    show ?thesis
    proof (cases "e \<le> i \<or> length s < e")
      case True
      then show ?thesis using 1(2) Some m by (subst (asm) captures_from.simps) simp
    next
      case False
      then have "cap = c \<or> cap \<in> set (captures_from U ic p s e)"
        using 1(2) Some m by (subst (asm) captures_from.simps) simp
      then show ?thesis
      proof
        assume "cap = c"
        then show ?thesis using search_Some[OF S] by blast
      next
        assume "cap \<in> set (captures_from U ic p s e)"
        from 1(1)[OF S refl refl False this] False show ?thesis
          by (meson le_trans nat_le_linear)
      qed
    qed
  qed
qed

lemma pattern_class_group:
  "class_group False (source pattern1)" "class_group False (source pattern2)"
  "class_group False (source pattern3)" "class_group False (source pattern4)"
  "class_group False (source pattern5)"
  by (simp_all add: pattern1_def pattern2_def pattern3_def pattern4_def pattern5_def
      regex_def lits_def group_def)

lemma capture_name_chars:
  assumes "Some c \<in> set (captures U R s)" "class_group False (source R)"
  shows "\<forall>x\<in>set c. x < 128 \<and> name_char (upperAscii x)"
proof -
  note c = assms(1)[unfolded captures_def]
  from captures_from_bt[OF c] obtain j rest where
    "bt U (ignoreCase R) (source R) (drop j s) None None = Some (rest, Some c)" by blast
  from bt_class_group[OF this] assms(2)
  have "\<forall>x\<in>set c. atom_matches U (ignoreCase R) upper_us x" by simp
  then show ?thesis using upper_us_upper by blast
qed

lemma candidate_name_chars:
  assumes "name \<in> set (candidates U Rs s)" "\<forall>R\<in>set Rs. class_group False (source R)"
  shows "(\<forall>x\<in>set name. name_char x) \<and> toUpperCase U name = name"
proof -
  from assms(1) obtain R c where R: "R \<in> set Rs" and c: "Some c \<in> set (captures U R s)"
    and name: "name = toUpperCase U c"
    by (auto simp: candidates_def set_candidates)
  from capture_name_chars[OF c] R assms(2)
  have asc: "\<forall>x\<in>set c. x < 128 \<and> name_char (upperAscii x)" by blast
  then have n: "name = map upperAscii c" using name by (simp add: toUpperCase_ascii)
  then have nc: "\<forall>x\<in>set name. name_char x" using asc by simp
  then have "\<forall>x\<in>set name. x < 128 \<and> upperAscii x = x"
    by (auto simp: name_char_def upperAscii_def)
  then have "toUpperCase U name = name"
    by (simp add: toUpperCase_ascii map_idI)
  then show ?thesis using nc by simp
qed

section \<open>The patterns that start with literal text\<close>

lemma star_close:
  "bt U ic [Star a, GroupClose] t (Some t0) cap
     = Some (dropWhile (atom_matches U ic a) t,
             Some (take (length t0 - length (dropWhile (atom_matches U ic a) t)) t0))"
  by (induction t) simp_all

lemma plus_group:
  "bt U ic (group [Plus a]) t None None
     = (if takeWhile (atom_matches U ic a) t \<noteq> []
        then Some (dropWhile (atom_matches U ic a) t, Some (takeWhile (atom_matches U ic a) t))
        else None)"
proof (cases t)
  case Nil
  then show ?thesis by (simp add: group_def)
next
  case (Cons c t')
  have "length t' - length (dropWhile (atom_matches U ic a) t')
      = length (takeWhile (atom_matches U ic a) t')"
    by (metis add_diff_cancel_right' length_append takeWhile_dropWhile_id)
  then show ?thesis using Cons
    by (simp add: group_def star_close Suc_diff_le length_dropWhile_le takeWhile_eq_take[symmetric])
qed

lemma lits_group:
  "bt U False (lits w @ group [Plus a]) t None None
     = (if prefix (js w) t \<and> takeWhile (atom_matches U False a) (drop (length w) t) \<noteq> []
        then Some (dropWhile (atom_matches U False a) (drop (length w) t),
                   Some (takeWhile (atom_matches U False a) (drop (length w) t)))
        else None)"
proof (induction w arbitrary: t)
  case Nil
  show ?case using plus_group[of U False a t] by (simp add: lits_def js_def)
next
  case (Cons x w)
  show ?case
  proof (cases t)
    case Nil
    then show ?thesis by (simp add: lits_def js_def)
  next
    case (Cons c t')
    then show ?thesis using Cons.IH[of t']
      by (auto simp: lits_def js_def canonicalize_plain)
  qed
qed


lemma length_js: "length (js w) = length w"
  by (simp add: js_def)

lemma env_no_overlap:
  assumes T: "prefix (js ''env.'') T"
    and d: "0 < d" "d < 4 + length (takeWhile name_char (drop 4 T))"
  shows "\<not> prefix (js ''env.'') (drop d T)"
proof
  assume p: "prefix (js ''env.'') (drop d T)"
  from T obtain T4 where T4: "T = js ''env.'' @ T4" by (auto simp: prefix_def)
  then have d4: "drop 4 T = T4" by (simp add: js_def)
  show False
  proof (cases "d < 4")
    case True
    then have "d = 1 \<or> d = 2 \<or> d = 3" using d(1) by arith
    then show False using p T4 by (auto simp: js_def)
  next
    case False
    define run where "run = takeWhile name_char T4"
    have "T4 = run @ dropWhile name_char T4" by (simp add: run_def)
    moreover have "drop d T = drop (d - 4) T4"
      using False T4 by (simp add: length_js eval_nat_numeral)
    moreover have l: "d - 4 < length run" using d(2) False d4 by (simp add: run_def)
    ultimately have "drop d T = drop (d - 4) run @ dropWhile name_char T4"
      by (metis drop_append less_imp_le_nat diff_is_0_eq drop0)
    moreover from l obtain x xs where x: "drop (d - 4) run = x # xs"
      by (cases "drop (d - 4) run") auto
    ultimately have "x = 101" using p by (simp add: js_def)
    moreover have "x \<in> set run" using x by (metis in_set_dropD list.set_intros(1))
    then have "name_char x" unfolding run_def by (rule set_takeWhileD[THEN conjunct2])
    ultimately show False by (simp add: name_char_def)
  qed
qed

lemma upper_us_plain: "atom_matches U False upper_us = name_char"
  by (rule ext) (simp add: upper_us_matches)

lemma env_group:
  "bt U False (lits ''env.'' @ group [Plus upper_us]) t None None
     = (if prefix (js ''env.'') t \<and> takeWhile name_char (drop 4 t) \<noteq> []
        then Some (dropWhile name_char (drop 4 t), Some (takeWhile name_char (drop 4 t)))
        else None)"
  using lits_group[of U "''env.''" upper_us t] by (simp add: upper_us_plain eval_nat_numeral)

lemma process_env_group:
  "bt U False (lits ''process.env.'' @ group [Plus upper_us]) t None None
     = (if prefix (js ''process.env.'') t \<and> takeWhile name_char (drop 12 t) \<noteq> []
        then Some (dropWhile name_char (drop 12 t), Some (takeWhile name_char (drop 12 t)))
        else None)"
  using lits_group[of U "''process.env.''" upper_us t] by (simp add: upper_us_plain eval_nat_numeral)

lemma pattern2_complete:
  "p = lits ''env.'' @ group [Plus upper_us] \<Longrightarrow> ic = False \<Longrightarrow>
   i \<le> k \<Longrightarrow> k \<le> length s \<Longrightarrow> bt U ic p (drop k s) None None = Some (rest, cap) \<Longrightarrow>
   cap \<in> set (captures_from U ic p s i)"
proof (induction U ic p s i rule: captures_from.induct)
  case (1 U ic p s i)
  note p = 1(2) and ic = 1(3) and ik = 1(4) and k = 1(5) and bk = 1(6)
  have cons: "list_ex consuming p" using p by (simp add: lits_def group_def)
  show ?case
  proof (cases "search U ic p s i")
    case None
    from search_skipped[OF None ik k] bk show ?thesis by simp
  next
    case (Some m)
    obtain j e c where m: "m = (j, e, c)" by (cases m)
    note S = Some[unfolded m]
    from search_Some[OF S] obtain rest' where j: "i \<le> j" "j \<le> length s"
      and bj: "bt U ic p (drop j s) None None = Some (rest', c)"
      and e: "e = length s - length rest'" by blast
    note sb = search_bounds[OF S]
    have guard: "\<not> (e \<le> i \<or> length s < e)" using sb(2,4) sb(3)[OF cons] by arith
    have unf: "captures_from U ic p s i = c # captures_from U ic p s e"
      using S guard by (subst captures_from.simps) simp
    have jk: "j \<le> k"
    proof (rule ccontr)
      assume "\<not> j \<le> k"
      then have "k < j" by simp
      with search_skipped[OF S ik k] bk show False by simp
    qed
    show ?thesis
    proof (cases "k = j")
      case True
      then show ?thesis using bj bk unf by simp
    next
      case False
      then have lt: "j < k" using jk by simp
      define T where "T = drop j s"
      from bj have Tp: "prefix (js ''env.'') T"
        and run: "takeWhile name_char (drop 4 T) \<noteq> []"
        and rest': "rest' = dropWhile name_char (drop 4 T)"
        unfolding p ic env_group T_def[symmetric] by (auto split: if_splits)
      from Tp have lenT: "4 \<le> length T" by (auto simp: prefix_def js_def)
      have "length (drop 4 T) = length (takeWhile name_char (drop 4 T)) + length rest'"
        unfolding rest' by (metis length_append takeWhile_dropWhile_id)
      then have e': "e = j + 4 + length (takeWhile name_char (drop 4 T))"
        using e j(2) lenT by (simp add: T_def)
      from bk have "prefix (js ''env.'') (drop k s)"
        unfolding p ic env_group by (auto split: if_splits)
      moreover have "drop k s = drop (k - j) T" using lt by (simp add: T_def)
      ultimately have "\<not> (k - j < 4 + length (takeWhile name_char (drop 4 T)))"
        using env_no_overlap[OF Tp, of "k - j"] lt by auto
      then have ek: "e \<le> k" using e' lt by arith
      from 1(1)[OF S refl refl guard p ic ek k bk] show ?thesis using unf by simp
    qed
  qed
qed

lemma pattern1_in_pattern2:
  assumes "Some c \<in> set (captures U pattern1 s)"
  shows "Some c \<in> set (captures U pattern2 s)"
proof -
  from assms have "Some c \<in> set (captures_from U False (lits ''process.env.'' @ group [Plus upper_us]) s 0)"
    by (simp add: captures_def pattern1_def regex_def)
  from captures_from_bt[OF this] obtain j rest where j: "j \<le> length s"
    and b: "bt U False (lits ''process.env.'' @ group [Plus upper_us]) (drop j s) None None
            = Some (rest, Some c)" by blast
  define T where "T = drop j s"
  from b have Tp: "prefix (js ''process.env.'') T"
    and c: "c = takeWhile name_char (drop 12 T)" "c \<noteq> []"
    and rest: "rest = dropWhile name_char (drop 12 T)"
    unfolding process_env_group T_def[symmetric] by (auto split: if_splits)
  from Tp obtain T' where T': "T = js ''process.env.'' @ T'" by (auto simp: prefix_def)
  have "drop (j + 8) s = drop 8 T" by (simp add: T_def add.commute)
  then have d8: "drop (j + 8) s = js ''env.'' @ T'"
    using T' by (simp add: js_def)
  have "length T = 12 + length T'" using T' by (simp add: js_def)
  then have j8: "j + 8 \<le> length s" using j by (simp add: T_def)
  have "drop 12 T = T'" using T' by (simp add: js_def)
  then have "bt U False (lits ''env.'' @ group [Plus upper_us]) (drop (j + 8) s) None None
      = Some (rest, Some c)"
    unfolding env_group d8 using c rest by (simp add: js_def)
  from pattern2_complete[OF refl refl _ j8 this, of 0] show ?thesis
    by (simp add: captures_def pattern2_def regex_def)
qed

section \<open>The pattern that ignores case\<close>

lemma upperAscii_eq_cases:
  "upperAscii c = upperAscii c' \<Longrightarrow> c = c' \<or> (65 \<le> c \<and> c \<le> 122 \<and> 65 \<le> c' \<and> c' \<le> 122)"
  by (auto simp: upperAscii_def split: if_splits)

lemma canonicalize_fold:
  assumes "upperAscii c = upperAscii c'"
  shows "canonicalize U True c = canonicalize U True c'"
proof (cases "c = c'")
  case False
  with upperAscii_eq_cases[OF assms] have "c < 128" "c' < 128" by auto
  then show ?thesis using assms by (simp add: canonicalize_ascii)
qed simp

lemma atom_matches_fold:
  assumes "upperAscii c = upperAscii c'"
  shows "atom_matches U True a c = atom_matches U True a c'"
proof (cases a)
  case Dot
  from upperAscii_eq_cases[OF assms] show ?thesis
    unfolding Dot by (auto simp: isLineTerminator_def)
qed (simp_all add: canonicalize_fold[OF assms])

lemma same_but_case_Cons:
  "same_but_case (c # t) t' \<longleftrightarrow> (\<exists>c' t''. t' = c' # t'' \<and> upperAscii c = upperAscii c' \<and> same_but_case t t'')"
  by (cases t') (auto simp: same_but_case_def)

lemma same_but_case_Nil [simp]: "same_but_case [] t' \<longleftrightarrow> t' = []"
  by (auto simp: same_but_case_def)

lemma same_but_case_Nil2 [simp]: "same_but_case s [] \<longleftrightarrow> s = []"
  by (auto simp: same_but_case_def)

lemma same_but_case_length: "same_but_case s t \<Longrightarrow> length s = length t"
  unfolding same_but_case_def by (rule map_eq_imp_length_eq)

lemma same_but_case_take: "same_but_case s t \<Longrightarrow> same_but_case (take n s) (take n t)"
  unfolding same_but_case_def by (simp add: take_map[symmetric])

lemma same_but_case_drop: "same_but_case s t \<Longrightarrow> same_but_case (drop n s) (drop n t)"
  unfolding same_but_case_def by (simp add: drop_map[symmetric])

lemma same_result_simps [simp]:
  "same_result None x \<longleftrightarrow> x = None"
  "same_result x None \<longleftrightarrow> x = None"
  "same_result (Some (r, c)) (Some (r', c')) \<longleftrightarrow> same_but_case r r' \<and> rel_option same_but_case c c'"
  by (cases x; simp add: same_result_def)+

lemma bt_fold:
  "ic \<Longrightarrow> same_but_case t t' \<Longrightarrow> rel_option same_but_case g g' \<Longrightarrow>
   rel_option same_but_case cap cap' \<Longrightarrow>
   same_result (bt U ic p t g cap) (bt U ic p t' g' cap')"
proof (induction U ic p t g cap arbitrary: t' g' cap' rule: bt.induct)
  case (1 U ic t g cap)
  then show ?case by simp
next
  case (2 U ic a r g cap)
  then show ?case by simp
next
  case (3 U ic a r c t g cap)
  from 3(3) obtain c' t'' where t': "t' = c' # t''" and c: "upperAscii c = upperAscii c'"
    and t: "same_but_case t t''" by (auto simp: same_but_case_Cons)
  have m: "atom_matches U ic a c = atom_matches U ic a c'"
    using atom_matches_fold[OF c] 3(2) by simp
  show ?case using 3(1)[OF _ 3(2) t 3(4,5)] m t' by simp
next
  case (4 U ic a r g cap)
  then show ?case by simp
next
  case (5 U ic a r c t g cap)
  from 5(5) obtain c' t'' where t': "t' = c' # t''" and c: "upperAscii c = upperAscii c'"
    and t: "same_but_case t t''" by (auto simp: same_but_case_Cons)
  have m: "atom_matches U ic a c = atom_matches U ic a c'"
    using atom_matches_fold[OF c] 5(4) by simp
  show ?case
  proof (cases "atom_matches U ic a c")
    case False
    then show ?thesis using 5(3)[OF False 5(4,5,6,7)] m t' by simp
  next
    case True
    note star = 5(1)[OF True 5(4) t 5(6,7)]
    show ?thesis
    proof (cases "bt U ic (Star a # r) t g cap")
      case None
      then have "bt U ic (Star a # r) t'' g' cap' = None" using star by simp
      then show ?thesis using 5(2)[OF True None 5(4,5,6,7)] None True m t' by simp
    next
      case (Some x)
      then obtain y where y: "bt U ic (Star a # r) t'' g' cap' = Some y"
        using star by (cases "bt U ic (Star a # r) t'' g' cap'") simp_all
      then show ?thesis using star Some True m t' by simp
    qed
  qed
next
  case (6 U ic a r t g cap)
  then show ?case by simp
next
  case (7 U ic r t g cap)
  then show ?case by simp
next
  case (8 U ic r t g cap)
  have "rel_option same_but_case
      (case g of Some t0 \<Rightarrow> Some (take (length t0 - length t) t0) | None \<Rightarrow> cap)
      (case g' of Some t0 \<Rightarrow> Some (take (length t0 - length t') t0) | None \<Rightarrow> cap')"
    using 8(3,4,5)
    by (cases g; cases g') (auto simp: same_but_case_length intro: same_but_case_take)
  from 8(1)[OF 8(2,3) _ this, of None] show ?case by simp
qed


lemma search_fold:
  "ic \<Longrightarrow> same_but_case s s' \<Longrightarrow>
   rel_option (\<lambda>(j, e, c) (j', e', c'). j = j' \<and> e = e' \<and> rel_option same_but_case c c')
     (search U ic p s i) (search U ic p s' i)"
proof (induction U ic p s i rule: search.induct)
  case (1 U ic p s i)
  note len = same_but_case_length[OF 1(3)]
  note b = bt_fold[OF 1(2) same_but_case_drop[OF 1(3), of i], of None None None None U p]
  show ?case
  proof (cases "length s < i")
    case True
    then show ?thesis using len by (subst search.simps, subst (2) search.simps) simp
  next
    case False
    show ?thesis
    proof (cases "bt U ic p (drop i s) None None")
      case None
      then have "bt U ic p (drop i s') None None = None" using b by simp
      then show ?thesis using 1(1)[OF False None 1(2,3)] None False len
        by (subst search.simps, subst (2) search.simps) simp
    next
      case (Some x)
      then obtain y where y: "bt U ic p (drop i s') None None = Some y"
        using b by (cases "bt U ic p (drop i s') None None") simp_all
      obtain r c r' c' where x: "x = (r, c)" and y': "y = (r', c')" by (cases x; cases y)
      from b Some y x y' have "same_but_case r r'" "rel_option same_but_case c c'" by simp_all
      then show ?thesis using Some y x y' False len same_but_case_length[of r r']
        by (subst search.simps, subst (2) search.simps) simp
    qed
  qed
qed

lemma captures_fold:
  "ic \<Longrightarrow> same_but_case s s' \<Longrightarrow>
   list_all2 (rel_option same_but_case) (captures_from U ic p s i) (captures_from U ic p s' i)"
proof (induction U ic p s i rule: captures_from.induct)
  case (1 U ic p s i)
  note len = same_but_case_length[OF 1(3)]
  note sf = search_fold[OF 1(2,3), of U p i]
  show ?case
  proof (cases "search U ic p s i")
    case None
    then have "search U ic p s' i = None" using sf by simp
    then show ?thesis using None
      by (subst captures_from.simps, subst (2) captures_from.simps) simp
  next
    case (Some m)
    obtain j e c where m: "m = (j, e, c)" by (cases m)
    from sf Some m obtain c' where s': "search U ic p s' i = Some (j, e, c')"
      and c: "rel_option same_but_case c c'"
      by (cases "search U ic p s' i") auto
    show ?thesis
    proof (cases "e \<le> i \<or> length s < e")
      case True
      then show ?thesis using Some m s' len
        by (subst captures_from.simps, subst (2) captures_from.simps) simp
    next
      case False
      from 1(1)[OF Some[unfolded m] refl refl False 1(2,3)] show ?thesis
        using Some m s' len c False
        by (subst captures_from.simps, subst (2) captures_from.simps) simp
    qed
  qed
qed

lemma non_ascii_run_fold:
  "same_but_case cs cs' \<Longrightarrow>
   takeWhile (\<lambda>d. 128 \<le> d) cs = takeWhile (\<lambda>d. 128 \<le> d) cs'
   \<and> same_but_case (dropWhile (\<lambda>d. 128 \<le> d) cs) (dropWhile (\<lambda>d. 128 \<le> d) cs')"
proof (induction cs arbitrary: cs')
  case Nil
  then show ?case by simp
next
  case (Cons c cs)
  from Cons(2) obtain c' t where cs': "cs' = c' # t" and c: "upperAscii c = upperAscii c'"
    and t: "same_but_case cs t" by (auto simp: same_but_case_Cons)
  from upperAscii_eq_cases[OF c] have "c = c' \<or> (c < 128 \<and> c' < 128)" by auto
  then show ?case using Cons(1)[OF t] cs' Cons(2) by auto
qed

lemma toUpperCase_fold:
  "same_but_case c c' \<Longrightarrow> toUpperCase U c = toUpperCase U c'"
proof (induction U c arbitrary: c' rule: toUpperCase.induct)
  case (1 U)
  then show ?case by simp
next
  case (2 U x cs)
  from 2(3) obtain x' t where c': "c' = x' # t" and x: "upperAscii x = upperAscii x'"
    and t: "same_but_case cs t" by (auto simp: same_but_case_Cons)
  show ?case
  proof (cases "x < 128")
    case True
    then have "x' < 128" using upperAscii_eq_cases[OF x] by auto
    then show ?thesis using True 2(1)[OF True t] c' x by simp
  next
    case False
    then have xx: "x' = x" using upperAscii_eq_cases[OF x] by auto
    from non_ascii_run_fold[OF t] 2(2)[OF False, of "dropWhile (\<lambda>d. 128 \<le> d) t"]
    show ?thesis using False c' xx by simp
  qed
qed

lemma note_all_fold:
  "list_all2 (rel_option same_but_case) cs cs' \<Longrightarrow> note_all U cs acc = note_all U cs' acc"
proof (induction cs cs' arbitrary: acc rule: list_all2_induct)
  case Nil
  show ?case by simp
next
  case (Cons g1 cs g1' cs')
  have "note_group U g1 acc = note_group U g1' acc"
    using Cons(1) toUpperCase_fold[of _ _ U]
    by (cases g1; cases g1') (auto simp: note_group_def)
  then show ?case using Cons(3)[of "note_group U g1 acc"] by (simp add: note_all_def)
qed

lemma pattern3_fold:
  assumes "map upperAscii s = map upperAscii t"
  shows "scream_loop U pattern3 s acc = scream_loop U pattern3 t acc"
proof -
  have ic: "ignoreCase pattern3" by (simp add: pattern3_def regex_def)
  from assms have "same_but_case s t" by (simp add: same_but_case_def)
  from captures_fold[OF ic this] have "note_all U (captures U pattern3 s) acc
      = note_all U (captures U pattern3 t) acc"
    unfolding captures_def by (rule note_all_fold)
  then show ?thesis
    by (simp add: scream_loop_captures patterns_global patterns_consuming)
qed

lemma exec_group:
  assumes "exec U R s = (Some m, R')" "group1 m = Some c" "class_group False (source R)"
  shows "\<forall>ch\<in>set c. atom_matches U (ignoreCase R) upper_us ch"
proof -
  from assms(1) obtain j e where
    "search U (ignoreCase R) (source R) s (if global R then lastIndex R else 0) = Some (j, e, group1 m)"
    by (auto simp: exec_def split: option.splits)
  from search_Some[OF this] assms(2) obtain rest where
    "bt U (ignoreCase R) (source R) (drop j s) None None = Some (rest, Some c)" by auto
  from bt_class_group[OF this] assms(3) show ?thesis by simp
qed

lemma candidates_origin:
  assumes "name \<in> set (candidates U Rs s)"
  shows "\<exists>R\<in>set Rs. \<exists>j rest c.
           bt U (ignoreCase R) (source R) (drop j s) None None = Some (rest, Some c)
           \<and> name = toUpperCase U c"
proof -
  from assms obtain R c where R: "R \<in> set Rs" and c: "Some c \<in> set (captures U R s)"
    and name: "name = toUpperCase U c"
    by (auto simp: candidates_def set_candidates)
  note c' = c[unfolded captures_def]
  from captures_from_bt[OF c'] R name show ?thesis by blast
qed

section \<open>Splitting and trimming\<close>

lemma split_not_Nil: "split sep s \<noteq> []"
  by (induction s) auto

lemma hd_split: "hd (split sep s) = takeWhile (\<lambda>c. c \<noteq> sep) s"
  by (induction s) auto

lemma split_no_sep:
  "dropWhile (\<lambda>c. c \<noteq> sep) s = [] \<Longrightarrow> split sep s = [s]"
  by (induction s) (auto split: if_splits)

lemma split_at_sep:
  "dropWhile (\<lambda>c. c \<noteq> sep) s = x # r \<Longrightarrow>
   split sep s = takeWhile (\<lambda>c. c \<noteq> sep) s # split sep r"
  by (induction s) (auto split: if_splits)

lemma spec_lines_split: "spec_lines s = split 10 s"
proof (induction s rule: spec_lines.induct)
  case (1 s)
  show ?case
  proof (cases "dropWhile (\<lambda>c. c \<noteq> 10) s")
    case Nil
    have "spec_lines s = [s]"
      by (subst spec_lines.simps) (simp add: Nil)
    then show ?thesis using split_no_sep[OF Nil] by simp
  next
    case (Cons x r)
    have "spec_lines s = takeWhile (\<lambda>c. c \<noteq> 10) s # spec_lines r"
      by (subst spec_lines.simps) (simp add: Cons)
    then show ?thesis using 1[OF Cons] split_at_sep[OF Cons] by simp
  qed
qed

lemma isWhiteSpace_simps: "\<not> isWhiteSpace 35" "\<not> isWhiteSpace 61"
  by (simp_all add: isWhiteSpace_def isLineTerminator_def)

lemma trim_comment:
  assumes "\<forall>c\<in>set ws. isWhiteSpace c"
  shows "trim (ws @ 35 # r) = 35 # rev (dropWhile isWhiteSpace (rev r))"
proof -
  have "dropWhile isWhiteSpace (ws @ 35 # r) = 35 # r"
    using assms by (simp add: dropWhile_append isWhiteSpace_simps)
  then show ?thesis
    by (simp add: trim_def dropWhile_append3 isWhiteSpace_simps)
qed

lemma takeWhile_comment:
  assumes "\<forall>c\<in>set ws. isWhiteSpace c"
  shows "takeWhile (\<lambda>c. c \<noteq> 61) (ws @ 35 # r) = ws @ 35 # takeWhile (\<lambda>c. c \<noteq> 61) r"
proof -
  have "\<forall>c\<in>set ws. c \<noteq> 61" using assms isWhiteSpace_simps(2) by blast
  then show ?thesis by (simp add: takeWhile_append2)
qed

section \<open>The classifier\<close>

text \<open>
  C1. For every sequence of candidates \<open>C\<close> and every list of reference keys \<open>R\<close>, the
  two outputs of the classifier are the candidates outside \<open>R\<close> and the candidates inside
  \<open>R\<close>: together they are all of \<open>C\<close>, they share no element, and each keeps the order of
  \<open>C\<close>. The autopsy is this classifier applied to the keys loaded from the file.
\<close>

theorem classify_partition:
  "missing (classify R C) = filter (\<lambda>x. x \<notin> set R) C
   \<and> misconfigured (classify R C) = filter (\<lambda>x. x \<in> set R) C
   \<and> set (missing (classify R C)) \<union> set (misconfigured (classify R C)) = set C
   \<and> set (missing (classify R C)) \<inter> set (misconfigured (classify R C)) = {}
   \<and> subseq (missing (classify R C)) C
   \<and> subseq (misconfigured (classify R C)) C
   \<and> autopsy U f C = map_sum id (\<lambda>vars. classify vars C) (existingVars U f)"
  by (auto simp: classify_def includes'_def autopsy_def split: sum.splits)

text \<open>
  C5. When the configuration file does not exist, the autopsy returns without failure,
  every candidate is missing and none is misconfigured.
\<close>

theorem absent_env_file:
  "autopsy U Absent suspects = Inr \<lparr>missing = suspects, misconfigured = []\<rparr>"
  by (simp add: autopsy_def existingVars_def classify_def includes'_def)

section \<open>The reference loader\<close>

text \<open>
  C8. For every content of the configuration file, the keys computed by the source are
  the keys of the parsing rule as the specification words it: the lines between newlines
  that contain \<open>=\<close>, each cut before its first \<open>=\<close>, trimmed and upper-cased, in the
  order of the file.
\<close>

theorem reference_loader_parsing_rule:
  "existingVars U (Content content) = Inr (spec_declared_keys U content)"
  by (simp add: existingVars_def spec_declared_keys_def spec_lines_split hd_split includes'_def)

text \<open>
  C2, as stated, fails: with the file \<open># NAME=value\<close> the candidate \<open>NAME\<close> is
  classified as missing, not as misconfigured.
\<close>

theorem commented_line_counterexample:
  "autopsy keepNonAscii (Content (js ''# NAME=value'')) [js ''NAME'']
   = Inr \<lparr>missing = [js ''NAME''], misconfigured = []\<rparr>"
  by (simp add: autopsy_def existingVars_def classify_def includes'_def js_def trim_def
      isWhiteSpace_def isLineTerminator_def upperAscii_def)

text \<open>
  C2, amended. Every line that contains \<open>=\<close> declares a key, commented-out lines
  included, and the key is the whole text before the first \<open>=\<close>, trimmed and upper-cased,
  the comment marker with it. A candidate is misconfigured exactly when it equals the key of
  such a line and missing otherwise; the key of a line whose first character after leading
  white space is \<open>#\<close> starts with \<open>#\<close>.
\<close>

theorem commented_line_key:
  "autopsy U (Content content) suspects =
     Inr \<lparr>missing = filter (\<lambda>x. \<not> (\<exists>l\<in>set (split 10 content). 61 \<in> set l
                \<and> toUpperCase U (trim (takeWhile (\<lambda>c. c \<noteq> 61) l)) = x)) suspects,
          misconfigured = filter (\<lambda>x. \<exists>l\<in>set (split 10 content). 61 \<in> set l
                \<and> toUpperCase U (trim (takeWhile (\<lambda>c. c \<noteq> 61) l)) = x) suspects\<rparr>
   \<and> ((\<forall>c\<in>set ws. isWhiteSpace c) \<longrightarrow>
        (\<exists>k. toUpperCase U (trim (takeWhile (\<lambda>c. c \<noteq> 61) (ws @ 35 # r))) = 35 # k))"
proof (intro conjI impI)
  show "autopsy U (Content content) suspects =
     Inr \<lparr>missing = filter (\<lambda>x. \<not> (\<exists>l\<in>set (split 10 content). 61 \<in> set l
                \<and> toUpperCase U (trim (takeWhile (\<lambda>c. c \<noteq> 61) l)) = x)) suspects,
          misconfigured = filter (\<lambda>x. \<exists>l\<in>set (split 10 content). 61 \<in> set l
                \<and> toUpperCase U (trim (takeWhile (\<lambda>c. c \<noteq> 61) l)) = x) suspects\<rparr>"
    by (auto simp: autopsy_def existingVars_def classify_def includes'_def hd_split
        intro!: filter_cong)
next
  assume ws: "\<forall>c\<in>set ws. isWhiteSpace c"
  show "\<exists>k. toUpperCase U (trim (takeWhile (\<lambda>c. c \<noteq> 61) (ws @ 35 # r))) = 35 # k"
    by (simp add: takeWhile_comment[OF ws] trim_comment[OF ws] upperAscii_def)
qed

theorem commented_line_key_witness:
  "autopsy keepNonAscii (Content (js ''# NAME=value'')) [js ''NAME''] =
     Inr \<lparr>missing = [js ''NAME''], misconfigured = []\<rparr>
   \<and> (\<exists>k. toUpperCase keepNonAscii (trim (takeWhile (\<lambda>c. c \<noteq> 61) (js ''  # NAME=value''))) = 35 # k)"
  using commented_line_key[of keepNonAscii "js ''# NAME=value''" "[js ''NAME'']" "js ''  ''" "js '' NAME=value''"]
  by (simp add: js_def trim_def isWhiteSpace_def isLineTerminator_def upperAscii_def)

section \<open>The pattern matcher\<close>

text \<open>
  C4. For every log text, a call of \<open>detectScreams\<close> on a fresh detector returns, and
  leaves every pattern's \<open>lastIndex\<close> where it was; a second call on the detector as
  the first call left it returns the same names.
\<close>

theorem detectScreams_idempotent:
  "\<exists>names d. detectScreams U EnvScreamDetector s = Some (names, d)
     \<and> map lastIndex (envPatterns d) = map lastIndex (envPatterns EnvScreamDetector)
     \<and> detectScreams U d s = Some (names, d)"
  by (simp add: detectScreams_candidates)

text \<open>
  C6. On the text \<open>process.env.API_KEY is undefined\<close> the candidates are exactly
  \<open>API_KEY\<close> (\<open>UNDEFINED\<close> is not among them), and with no configuration file the
  autopsy reports \<open>API_KEY\<close> as missing and nothing as misconfigured.
\<close>

theorem api_key_scenario:
  "detectScreams keepNonAscii EnvScreamDetector (js ''process.env.API_KEY is undefined'')
     = Some ([js ''API_KEY''], EnvScreamDetector)
   \<and> autopsy keepNonAscii Absent [js ''API_KEY'']
     = Inr \<lparr>missing = [js ''API_KEY''], misconfigured = []\<rparr>"
  by code_simp

text \<open>
  C7. For every log text the call returns, and every candidate name consists of the
  letters \<open>A\<close> to \<open>Z\<close> and \<open>_\<close> only; upper-casing it again leaves it as it is.
\<close>

theorem candidates_upper_case:
  "\<exists>names d. detectScreams U EnvScreamDetector s = Some (names, d)
     \<and> (\<forall>name\<in>set names. (\<forall>ch\<in>set name. name_char ch) \<and> toUpperCase U name = name)"
proof -
  have "\<forall>R\<in>set [pattern1, pattern2, pattern3, pattern4, pattern5]. class_group False (source R)"
    by (simp add: pattern_class_group)
  then show ?thesis
    using candidate_name_chars[of _ U "[pattern1, pattern2, pattern3, pattern4, pattern5]" s]
    by (simp add: detectScreams_candidates)
qed

theorem candidates_upper_case_witness:
  "\<exists>names d. detectScreams keepNonAscii EnvScreamDetector (js ''Missing DB_URL'') = Some (names, d)
     \<and> names = [js ''DB_URL'']
     \<and> list_all (\<lambda>name. list_all name_char name \<and> toUpperCase keepNonAscii name = name) names"
proof -
  have e: "detectScreams keepNonAscii EnvScreamDetector (js ''Missing DB_URL'')
      = Some ([js ''DB_URL''], EnvScreamDetector)"
    by code_simp
  show ?thesis
    using candidates_upper_case[of keepNonAscii "js ''Missing DB_URL''"]
    by (simp add: e list_all_iff)
qed

text \<open>
  C10. For every log text, the detector without its first pattern returns the same set
  of names as the detector with it: every name captured after \<open>process.env.\<close> is
  captured by the second pattern after the \<open>env.\<close> inside it.
\<close>

theorem first_pattern_redundant:
  "\<exists>names d names' d'.
     detectScreams U EnvScreamDetector s = Some (names, d)
     \<and> detectScreams U (EnvScreamDetector\<lparr>envPatterns := tl (envPatterns EnvScreamDetector)\<rparr>) s
         = Some (names', d')
     \<and> set names = set names'"
proof -
  have "forEach U [pattern2, pattern3, pattern4, pattern5] s []
      = Some (candidates U [pattern2, pattern3, pattern4, pattern5] s,
              map (\<lambda>R. R\<lparr>lastIndex := 0\<rparr>) [pattern2, pattern3, pattern4, pattern5])"
    unfolding candidates_def
    by (rule forEach_captures) (simp add: patterns_consuming patterns_global)
  then have "detectScreams U (EnvScreamDetector\<lparr>envPatterns := tl (envPatterns EnvScreamDetector)\<rparr>) s
      = Some (candidates U [pattern2, pattern3, pattern4, pattern5] s,
              \<lparr>envPatterns = [pattern2, pattern3, pattern4, pattern5]\<rparr>)"
    by (simp add: detectScreams_def EnvScreamDetector_def patterns_rewound del: forEach.simps)
  moreover have "set (candidates U [pattern1, pattern2, pattern3, pattern4, pattern5] s)
      = set (candidates U [pattern2, pattern3, pattern4, pattern5] s)"
    unfolding candidates_def set_candidates using pattern1_in_pattern2[of _ U s] by auto
  ultimately show ?thesis by (simp add: detectScreams_candidates)
qed

text \<open>
  C3, as stated, fails: \<open>process.env.api_key\<close> yields no candidate, while
  \<open>process.env.API_KEY\<close> yields \<open>API_KEY\<close>.
\<close>

theorem lower_case_counterexample:
  "detectScreams keepNonAscii EnvScreamDetector (js ''process.env.api_key'')
     = Some ([], EnvScreamDetector)
   \<and> detectScreams keepNonAscii EnvScreamDetector (js ''process.env.API_KEY'')
     = Some ([js ''API_KEY''], EnvScreamDetector)"
  by code_simp

text \<open>
  C3, amended. Only the third pattern, the one with the \<open>i\<close> flag, matches without
  regard to case: on two texts that differ only in the case of ASCII letters its loop
  returns the same names. The other four patterns are case-sensitive: whatever their group
  captures consists of \<open>A\<close> to \<open>Z\<close> and \<open>_\<close>. Every name of the result is the
  upper-cased text of a capture.
\<close>

theorem case_of_names:
  "(map upperAscii s = map upperAscii t \<longrightarrow>
      (\<exists>names. scream_loop U pattern3 s acc = Some (names, pattern3)
              \<and> scream_loop U pattern3 t acc = Some (names, pattern3)))
   \<and> (R \<in> {pattern1, pattern2, pattern4, pattern5} \<longrightarrow>
        exec U (R\<lparr>lastIndex := i\<rparr>) s' = (Some m, R') \<longrightarrow> group1 m = Some c \<longrightarrow>
        (\<forall>ch\<in>set c. name_char ch))
   \<and> (\<exists>names d. detectScreams U EnvScreamDetector s'' = Some (names, d)
        \<and> (\<forall>name\<in>set names. \<exists>R\<in>set (envPatterns EnvScreamDetector). \<exists>j rest c.
              bt U (ignoreCase R) (source R) (drop j s'') None None = Some (rest, Some c)
              \<and> name = toUpperCase U c))"
proof (intro conjI impI)
  assume "map upperAscii s = map upperAscii t"
  from pattern3_fold[OF this, of U acc]
  show "\<exists>names. scream_loop U pattern3 s acc = Some (names, pattern3)
              \<and> scream_loop U pattern3 t acc = Some (names, pattern3)"
    by (simp add: scream_loop_captures patterns_global patterns_consuming patterns_rewound)
next
  assume R: "R \<in> {pattern1, pattern2, pattern4, pattern5}"
    and e: "exec U (R\<lparr>lastIndex := i\<rparr>) s' = (Some m, R')" and g: "group1 m = Some c"
  from R have "class_group False (source (R\<lparr>lastIndex := i\<rparr>))" "\<not> ignoreCase (R\<lparr>lastIndex := i\<rparr>)"
    by (auto simp: pattern_class_group) (auto simp: pattern1_def pattern2_def pattern4_def pattern5_def regex_def)
  with exec_group[OF e g] show "\<forall>ch\<in>set c. name_char ch"
    by (simp add: upper_us_matches)
next
  show "\<exists>names d. detectScreams U EnvScreamDetector s'' = Some (names, d)
        \<and> (\<forall>name\<in>set names. \<exists>R\<in>set (envPatterns EnvScreamDetector). \<exists>j rest c.
              bt U (ignoreCase R) (source R) (drop j s'') None None = Some (rest, Some c)
              \<and> name = toUpperCase U c)"
  proof -
    have "envPatterns EnvScreamDetector = [pattern1, pattern2, pattern3, pattern4, pattern5]"
      by (simp add: EnvScreamDetector_def)
    then show ?thesis
      using candidates_origin[of _ U "[pattern1, pattern2, pattern3, pattern4, pattern5]" s'']
      by (simp add: detectScreams_candidates)
  qed
qed


theorem case_of_names_witness:
  "map upperAscii (js ''cannot READ property of undefined env.x'')
     = map upperAscii (js ''Cannot read property of undefined env.X'')
   \<and> scream_loop keepNonAscii pattern3 (js ''cannot READ property of undefined env.x'') []
       = Some ([js ''X''], pattern3)
   \<and> scream_loop keepNonAscii pattern3 (js ''Cannot read property of undefined env.X'') []
       = Some ([js ''X''], pattern3)
   \<and> pattern2 \<in> {pattern1, pattern2, pattern4, pattern5}
   \<and> exec keepNonAscii (pattern2\<lparr>lastIndex := 0\<rparr>) (js ''env.A'')
       = (Some \<lparr>index = 0, matched = js ''env.A'', group1 = Some (js ''A'')\<rparr>,
          pattern2\<lparr>lastIndex := 5\<rparr>)
   \<and> list_all name_char (js ''A'')
   \<and> (\<exists>names d. detectScreams keepNonAscii EnvScreamDetector (js ''Missing A'') = Some (names, d)
        \<and> names = [js ''A''])"
proof -
  have eq: "map upperAscii (js ''cannot READ property of undefined env.x'')
     = map upperAscii (js ''Cannot read property of undefined env.X'')"
    by (simp add: js_def upperAscii_def)
  have l: "scream_loop keepNonAscii pattern3 (js ''cannot READ property of undefined env.x'') []
       = Some ([js ''X''], pattern3)"
    by (simp add: scream_loop.simps exec_def search.simps pattern3_def regex_def lits_def
        group_def js_def upper_us_def canonicalize_def upperAscii_def isLineTerminator_def
        note_group_def add_def)
  have e: "exec keepNonAscii (pattern2\<lparr>lastIndex := 0\<rparr>) (js ''env.A'')
       = (Some \<lparr>index = 0, matched = js ''env.A'', group1 = Some (js ''A'')\<rparr>,
          pattern2\<lparr>lastIndex := 5\<rparr>)"
    by (simp add: exec_def search.simps pattern2_def regex_def lits_def
        group_def js_def upper_us_def canonicalize_def)
  have d: "detectScreams keepNonAscii EnvScreamDetector (js ''Missing A'')
      = Some ([js ''A''], EnvScreamDetector)"
    by code_simp
  show ?thesis
    using case_of_names[of "js ''cannot READ property of undefined env.x''"
        "js ''Cannot read property of undefined env.X''" keepNonAscii "[]"
        pattern2 0 "js ''env.A''" "\<lparr>index = 0, matched = js ''env.A'', group1 = Some (js ''A'')\<rparr>"
        "pattern2\<lparr>lastIndex := 5\<rparr>" "js ''A''" "js ''Missing A''"]
    by (simp add: eq l e d list_all_iff)
qed

section \<open>The command line\<close>

text \<open>
  C9. With no path argument (an argument vector of fewer than three entries) the run
  prints exactly three lines, the usage line
  \<open>Usage: node env-scream-detector.js <logfile>\<close>, the example line
  \<open>Example: node env-scream-detector.js error.log\<close> and, after an empty line, the
  tip \<open>Pro tip: Your logs are probably screaming right now.\<close>, and exits with status
  1. The output is the same in every world: no file is looked up and no log is analysed.
\<close>

theorem no_argument_usage:
  "length argv < 3 \<Longrightarrow>
   cli U w argv =
     Inr \<lparr>stdout = [js ''Usage: node env-scream-detector.js <logfile>'',
                    js ''Example: node env-scream-detector.js error.log'',
                    10 # js ''Pro tip: Your logs are probably screaming right now.''],
          status = 1\<rparr>"
  by (simp add: cli_def usage_def)

theorem no_argument_usage_witness:
  "length [js ''node'', js ''env-scream-detector.js''] < 3
   \<and> cli keepNonAscii \<lparr>logs = (\<lambda>p. Content (js ''Missing A'')), dotenv = Absent\<rparr>
       [js ''node'', js ''env-scream-detector.js'']
     = Inr \<lparr>stdout = [js ''Usage: node env-scream-detector.js <logfile>'',
                      js ''Example: node env-scream-detector.js error.log'',
                      10 # js ''Pro tip: Your logs are probably screaming right now.''],
            status = 1\<rparr>"
  using no_argument_usage[of "[js ''node'', js ''env-scream-detector.js'']" keepNonAscii
      "\<lparr>logs = (\<lambda>p. Content (js ''Missing A'')), dotenv = Absent\<rparr>"]
  by simp

end
